theory Spec2Isabelle
  imports Main "HOL-Library.AList"
begin

section \<open>JavaScript values used by the game\<close>

text \<open>
  The game of \<^verbatim>\<open>src/index.tsx\<close> keeps its boards in \<^verbatim>\<open>Array<string>\<close> values and
  indexes them with \<^verbatim>\<open>number\<close>s. Numbers are modelled as \<^typ>\<open>int\<close> (the indices the
  board and the history list hand over are integers); a read that finds nothing
  yields \<^verbatim>\<open>undefined\<close>, modelled as \<^term>\<open>None\<close>.

  An array is an object: its index slots \<open>0 .. length - 1\<close> (a slot may be a hole,
  which reads as \<^verbatim>\<open>undefined\<close>) and its other own properties. A key is an array
  index when it is an integer in \<open>0 .. 2^32 - 2\<close>; a write to any other key creates
  an ordinary property and leaves the length alone.
\<close>

record js_array =
  elems :: "string option list"
  props :: "(int \<times> string) list"

definition is_index :: "int \<Rightarrow> bool" where
  "is_index i = (0 \<le> i \<and> i < 4294967295)"

text \<open>\<^verbatim>\<open>squares[i]\<close> as an expression.\<close>

definition arr_get :: "js_array \<Rightarrow> int \<Rightarrow> string option" where
  "arr_get a i =
     (if is_index i
      then (if nat i < length (elems a) then elems a ! nat i else None)
      else map_of (props a) i)"

text \<open>\<^verbatim>\<open>squares[i] = v\<close>: a write past the end extends the array with holes.\<close>

definition arr_set :: "js_array \<Rightarrow> int \<Rightarrow> string \<Rightarrow> js_array" where
  "arr_set a i v =
     (if is_index i
      then (if nat i < length (elems a)
            then a\<lparr>elems := (elems a)[nat i := Some v]\<rparr>
            else a\<lparr>elems := elems a @ replicate (nat i - length (elems a)) None @ [Some v]\<rparr>)
      else a\<lparr>props := AList.update i v (props a)\<rparr>)"

text \<open>\<^verbatim>\<open>squares.slice()\<close> copies the index slots only.\<close>

definition arr_slice :: "js_array \<Rightarrow> js_array" where
  "arr_slice a = \<lparr>elems = elems a, props = []\<rparr>"

text \<open>\<^verbatim>\<open>Array<string>(9).fill('')\<close>\<close>

definition empty_board :: js_array where
  "empty_board = \<lparr>elems = replicate 9 (Some ''''), props = []\<rparr>"

text \<open>Truthiness of a \<^verbatim>\<open>string | undefined | null\<close>: only a non-empty string is truthy.\<close>

fun truthy :: "string option \<Rightarrow> bool" where
  "truthy None = False"
| "truthy (Some s) = (s \<noteq> [])"

text \<open>\<^verbatim>\<open>xs.slice(0, e)\<close> on a list without holes: a negative end counts from the back.\<close>

definition js_slice0 :: "'a list \<Rightarrow> int \<Rightarrow> 'a list" where
  "js_slice0 xs e =
     (let n = int (length xs);
          k = (if e < 0 then max (n + e) 0 else min e n)
      in take (nat k) xs)"

text \<open>\<^verbatim>\<open>xs[i]\<close> on a list without holes or extra properties.\<close>

definition js_index :: "'a list \<Rightarrow> int \<Rightarrow> 'a option" where
  "js_index xs i = (if 0 \<le> i \<and> i < int (length xs) then Some (xs ! nat i) else None)"

text \<open>The remainder \<^verbatim>\<open>a % b\<close> on integers takes the sign of the dividend.\<close>

definition js_rem :: "int \<Rightarrow> int \<Rightarrow> int" where
  "js_rem a b = sgn a * (\<bar>a\<bar> mod \<bar>b\<bar>)"

text \<open>
  Number to string, as string concatenation and \<^verbatim>\<open>join\<close> convert integers: the decimal
  digits (JavaScript changes to exponent notation only from \<open>10^21\<close> on, far beyond any
  step number or coordinate).
\<close>

definition digit_char :: "nat \<Rightarrow> char" where
  "digit_char d = char_of (48 + d)"

fun show_nat :: "nat \<Rightarrow> string" where
  "show_nat n = (if n < 10 then [digit_char n] else show_nat (n div 10) @ [digit_char (n mod 10)])"

declare show_nat.simps [simp del]

definition show_int :: "int \<Rightarrow> string" where
  "show_int i = (if i < 0 then CHR ''-'' # show_nat (nat (- i)) else show_nat (nat i))"

text \<open>\<^verbatim>\<open>xs.join(sep)\<close> on an array of numbers.\<close>

fun js_join :: "string \<Rightarrow> int list \<Rightarrow> string" where
  "js_join sep [] = []"
| "js_join sep [x] = show_int x"
| "js_join sep (x # y # ys) = show_int x @ sep @ js_join sep (y # ys)"

section \<open>The game state\<close>

record entry =
  squares :: js_array
  coords :: "int list option"

record GameState =
  history :: "entry list"
  step :: int
  xIsNext :: bool

datatype error = TypeError

definition initial_state :: GameState where
  "initial_state =
     \<lparr>history = [\<lparr>squares = empty_board, coords = None\<rparr>], step = 0, xIsNext = True\<rparr>"

section \<open>calculateWinner and calculateCoordinate\<close>

definition lines :: "(int \<times> int \<times> int) list" where
  "lines = [(0, 1, 2), (3, 4, 5), (6, 7, 8), (0, 3, 6), (1, 4, 7), (2, 5, 8), (0, 4, 8), (2, 4, 6)]"

text \<open>The condition of the \<^verbatim>\<open>if\<close> in the loop body.\<close>

definition line_wins :: "js_array \<Rightarrow> int \<times> int \<times> int \<Rightarrow> bool" where
  "line_wins sq l =
     (case l of (a, b, c) \<Rightarrow>
        truthy (arr_get sq a) \<and> arr_get sq a = arr_get sq b \<and> arr_get sq a = arr_get sq c)"

text \<open>The \<^verbatim>\<open>for\<close> loop over the remaining lines; \<^verbatim>\<open>null\<close> is \<^term>\<open>None\<close>.\<close>

fun scan_lines :: "(int \<times> int \<times> int) list \<Rightarrow> js_array \<Rightarrow> string option" where
  "scan_lines [] sq = None"
| "scan_lines (l # rest) sq = (if line_wins sq l then arr_get sq (fst l) else scan_lines rest sq)"

definition calculateWinner :: "js_array \<Rightarrow> string option" where
  "calculateWinner sq = scan_lines lines sq"

definition coordinateMap :: "(int \<times> int list) list" where
  "coordinateMap =
     [(0, [1, 1]), (1, [2, 1]), (2, [3, 1]),
      (3, [1, 2]), (4, [2, 2]), (5, [3, 2]),
      (6, [1, 3]), (7, [2, 3]), (8, [3, 3])]"

definition calculateCoordinate :: "int \<Rightarrow> int list option" where
  "calculateCoordinate i = map_of coordinateMap i"

section \<open>handleClick and jumpTo\<close>

text \<open>
  \<^verbatim>\<open>setState\<close> is taken to apply its update at once (one event is handled to
  completion before the next). The functions below are the state transitions of the
  two handlers; the rendering that follows a \<^verbatim>\<open>setState\<close> is \<^verbatim>\<open>render\<close>, modelled on its
  own further down. Reading \<^verbatim>\<open>current.squares\<close> when \<^verbatim>\<open>history[step]\<close> is
  \<^verbatim>\<open>undefined\<close> throws a \<^verbatim>\<open>TypeError\<close>; the early \<^verbatim>\<open>return\<close> leaves the state as it is.
\<close>

definition handleClick :: "int \<Rightarrow> GameState \<Rightarrow> error + GameState" where
  "handleClick i s =
     (let hist = js_slice0 (history s) (step s + 1) in
      case js_index hist (step s) of
        None \<Rightarrow> Inl TypeError
      | Some current \<Rightarrow>
          let sq = arr_slice (squares current);
              x = xIsNext s
          in if truthy (calculateWinner sq) \<or> truthy (arr_get sq i) then Inr s
             else Inr \<lparr>history = hist @ [\<lparr>squares = arr_set sq i (if x then ''X'' else ''O''),
                                           coords = calculateCoordinate i\<rparr>],
                       step = int (length hist),
                       xIsNext = \<not> x\<rparr>)"

definition jumpTo :: "int \<Rightarrow> GameState \<Rightarrow> GameState" where
  "jumpTo move s = s\<lparr>step := move, xIsNext := (js_rem move 2 = 0)\<rparr>"

section \<open>render\<close>

text \<open>
  What \<^verbatim>\<open>render\<close> computes before it builds markup: the board handed to
  \<^verbatim>\<open>Board\<close>, the status line, and one description per history entry.
  \<^verbatim>\<open>it.coords!.join\<close> throws when \<^verbatim>\<open>coords\<close> is \<^verbatim>\<open>undefined\<close>.
\<close>

record rendering =
  board :: js_array
  status :: string
  moves :: "string list"

definition description :: "entry \<Rightarrow> nat \<Rightarrow> error + string" where
  "description it move =
     (if move \<noteq> 0
      then (case coords it of
              None \<Rightarrow> Inl TypeError
            | Some cs \<Rightarrow>
                Inr (''Go to move #'' @ show_nat move @ '' at ('' @ js_join '', '' cs @ '')''))
      else Inr ''Go to start'')"

text \<open>\<^verbatim>\<open>history.map((it, move) => ...)\<close>, from index \<open>move\<close> on.\<close>

fun map_descriptions :: "nat \<Rightarrow> entry list \<Rightarrow> error + string list" where
  "map_descriptions move [] = Inr []"
| "map_descriptions move (it # rest) =
     (case description it move of
        Inl e \<Rightarrow> Inl e
      | Inr d \<Rightarrow> (case map_descriptions (Suc move) rest of
                    Inl e \<Rightarrow> Inl e
                  | Inr ds \<Rightarrow> Inr (d # ds)))"

text \<open>A \<^verbatim>\<open>string | null\<close> operand of string concatenation.\<close>

fun js_str :: "string option \<Rightarrow> string" where
  "js_str None = ''null''"
| "js_str (Some w) = w"

definition render :: "GameState \<Rightarrow> error + rendering" where
  "render s =
     (case js_index (history s) (step s) of
        None \<Rightarrow> Inl TypeError
      | Some current \<Rightarrow>
          let winner = calculateWinner (squares current);
              nextPlayer = (if xIsNext s then ''X'' else ''O'');
              st = (if truthy winner then ''Winner is '' @ js_str winner @ ''!''
                    else ''Next Player is '' @ nextPlayer)
          in (case map_descriptions 0 (history s) of
                Inl e \<Rightarrow> Inl e
              | Inr ms \<Rightarrow> Inr \<lparr>board = squares current, status = st, moves = ms\<rparr>))"

section \<open>Reachable states\<close>

text \<open>
  The states the game reaches from its initial state through clicks on the nine
  cells of the board and jumps to a step of the history.
\<close>

inductive reachable :: "GameState \<Rightarrow> bool" where
  init: "reachable initial_state"
| click: "reachable s \<Longrightarrow> 0 \<le> i \<Longrightarrow> i \<le> 8 \<Longrightarrow> handleClick i s = Inr s' \<Longrightarrow> reachable s'"
| jump: "reachable s \<Longrightarrow> 0 \<le> k \<Longrightarrow> k < int (length (history s)) \<Longrightarrow> reachable (jumpTo k s)"


section \<open>Notions used to state the properties\<close>

text \<open>The board of history entry \<open>k\<close> (\<^verbatim>\<open>history[k].squares\<close>), when there is such an entry.\<close>

definition board_at :: "GameState \<Rightarrow> int \<Rightarrow> js_array option" where
  "board_at s k = map_option squares (js_index (history s) k)"

text \<open>
  A cell is Empty (the empty string), \<^verbatim>\<open>X\<close> or \<^verbatim>\<open>O\<close>; a board is a plain array of
  nine cells.
\<close>

definition cell_ok :: "string option \<Rightarrow> bool" where
  "cell_ok c = (c = Some '''' \<or> c = Some ''X'' \<or> c = Some ''O'')"

definition board_ok :: "js_array \<Rightarrow> bool" where
  "board_ok a = (props a = [] \<and> length (elems a) = 9 \<and> list_all cell_ok (elems a))"

definition mk_board :: "string list \<Rightarrow> js_array" where
  "mk_board cs = \<lparr>elems = map Some cs, props = []\<rparr>"

text \<open>An entry made by a click on one of the nine cells carries that cell's coordinate.\<close>

definition coords_ok :: "entry \<Rightarrow> bool" where
  "coords_ok e = (\<exists>i\<in>{0..8}. coords e = calculateCoordinate i)"

text \<open>The invariant of the reachable states.\<close>

definition state_ok :: "GameState \<Rightarrow> bool" where
  "state_ok s =
     (0 \<le> step s \<and> step s < int (length (history s)) \<and>
      xIsNext s = even (step s) \<and>
      take 1 (history s) = [\<lparr>squares = empty_board, coords = None\<rparr>] \<and>
      list_all (\<lambda>e. board_ok (squares e)) (history s) \<and>
      list_all coords_ok (drop 1 (history s)))"

text \<open>
  A move is valid when it clicks one of the nine cells, that cell is Empty on the
  current board and the current board has no winner.
\<close>

definition valid_move :: "int \<Rightarrow> GameState \<Rightarrow> bool" where
  "valid_move i s =
     (0 \<le> i \<and> i \<le> 8 \<and>
      (case board_at s (step s) of
         None \<Rightarrow> False
       | Some b \<Rightarrow> calculateWinner b = None \<and> arr_get b i = Some ''''))"

text \<open>A sequence of clicks, one after the other; a throw ends the sequence.\<close>

fun apply_moves :: "int list \<Rightarrow> GameState \<Rightarrow> error + GameState" where
  "apply_moves [] s = Inr s"
| "apply_moves (i # rest) s =
     (case handleClick i s of Inl e \<Rightarrow> Inl e | Inr s' \<Rightarrow> apply_moves rest s')"

fun valid_moves :: "int list \<Rightarrow> GameState \<Rightarrow> bool" where
  "valid_moves [] s = True"
| "valid_moves (i # rest) s =
     (valid_move i s \<and>
      (case handleClick i s of Inl e \<Rightarrow> False | Inr s' \<Rightarrow> valid_moves rest s'))"

text \<open>
  The winner as the specification words it: the lines in the order rows, columns,
  diagonals; a line is complete when its three cells are equal and not Empty; the
  result is the mark on the first complete line.
\<close>

definition spec_lines :: "(int \<times> int \<times> int) list" where
  "spec_lines =
     [(0, 1, 2), (3, 4, 5), (6, 7, 8),
      (0, 3, 6), (1, 4, 7), (2, 5, 8),
      (0, 4, 8), (2, 4, 6)]"

definition line_complete :: "js_array \<Rightarrow> int \<times> int \<times> int \<Rightarrow> bool" where
  "line_complete b l =
     (case l of (p, q, r) \<Rightarrow>
        arr_get b p = arr_get b q \<and> arr_get b q = arr_get b r \<and> arr_get b p \<noteq> Some '''')"

definition spec_winner :: "js_array \<Rightarrow> string option" where
  "spec_winner b =
     (case find (line_complete b) spec_lines of
        None \<Rightarrow> None
      | Some l \<Rightarrow> arr_get b (fst l))"

text \<open>The coordinate as the specification computes it: column, then row.\<close>

definition spec_coordinate :: "int \<Rightarrow> int list" where
  "spec_coordinate i = [i mod 3 + 1, i div 3 + 1]"

text \<open>The label of history entry \<open>m > 0\<close> as the specification words it.\<close>

definition spec_label :: "nat \<Rightarrow> int \<Rightarrow> int \<Rightarrow> string" where
  "spec_label m col row =
     ''Go to move #'' @ show_nat m @ '' at ('' @ show_int col @ '', '' @ show_int row @ '')''"

section \<open>Example states\<close>

text \<open>
  The game after the clicks 0, 4, 1, 3, 2: X has completed the top row at step 5.
\<close>

definition won_state :: GameState where
  "won_state =
     \<lparr>history =
        [\<lparr>squares = empty_board, coords = None\<rparr>,
         \<lparr>squares = mk_board [''X'', '''', '''', '''', '''', '''', '''', '''', ''''],
          coords = Some [1, 1]\<rparr>,
         \<lparr>squares = mk_board [''X'', '''', '''', '''', ''O'', '''', '''', '''', ''''],
          coords = Some [2, 2]\<rparr>,
         \<lparr>squares = mk_board [''X'', ''X'', '''', '''', ''O'', '''', '''', '''', ''''],
          coords = Some [2, 1]\<rparr>,
         \<lparr>squares = mk_board [''X'', ''X'', '''', ''O'', ''O'', '''', '''', '''', ''''],
          coords = Some [1, 2]\<rparr>,
         \<lparr>squares = mk_board [''X'', ''X'', ''X'', ''O'', ''O'', '''', '''', '''', ''''],
          coords = Some [3, 1]\<rparr>],
      step = 5, xIsNext = False\<rparr>"

text \<open>
  The game after the first click, on cell 0.
\<close>

definition first_move_state :: GameState where
  "first_move_state =
     \<lparr>history =
        [\<lparr>squares = empty_board, coords = None\<rparr>,
         \<lparr>squares = mk_board [''X'', '''', '''', '''', '''', '''', '''', '''', ''''],
          coords = Some [1, 1]\<rparr>],
      step = 1, xIsNext = False\<rparr>"

text \<open>
  The game after the clicks 0, 4, 1, 3, 2, a jump back to step 1 and a click on cell 2.
\<close>

definition branched_state :: GameState where
  "branched_state =
     \<lparr>history =
        [\<lparr>squares = empty_board, coords = None\<rparr>,
         \<lparr>squares = mk_board [''X'', '''', '''', '''', '''', '''', '''', '''', ''''],
          coords = Some [1, 1]\<rparr>,
         \<lparr>squares = mk_board [''X'', '''', ''O'', '''', '''', '''', '''', '''', ''''],
          coords = Some [3, 1]\<rparr>],
      step = 2, xIsNext = True\<rparr>"

text \<open>
  A nine-cell board on which two lines are complete at once: the column (0,3,6) with O
  and the column (1,4,7) with X.
\<close>

definition two_lines_board :: js_array where
  "two_lines_board = mk_board [''O'', ''X'', '''', ''O'', ''X'', '''', ''O'', ''X'', '''']"

text \<open>
  The game after a first click with the index 10: the write past the end has extended
  the board to eleven slots, slot 9 being a hole.
\<close>

definition overflow_board :: js_array where
  "overflow_board =
     \<lparr>elems = [Some '''', Some '''', Some '''', Some '''', Some '''', Some '''',
               Some '''', Some '''', Some '''', None, Some ''X''],
      props = []\<rparr>"

definition overflow_state :: GameState where
  "overflow_state =
     \<lparr>history =
        [\<lparr>squares = empty_board, coords = None\<rparr>,
         \<lparr>squares = overflow_board, coords = None\<rparr>],
      step = 1, xIsNext = False\<rparr>"

text \<open>
  The game after a first click with the index -1: the write has made a property
  \<^verbatim>\<open>"-1"\<close> on the copied board and left its nine slots alone.
\<close>

definition negative_state :: GameState where
  "negative_state =
     \<lparr>history =
        [\<lparr>squares = empty_board, coords = None\<rparr>,
         \<lparr>squares = \<lparr>elems = elems empty_board, props = [(- 1, ''X'')]\<rparr>, coords = None\<rparr>],
      step = 1, xIsNext = False\<rparr>"

section \<open>Basic facts\<close>

lemma js_rem_2: "(js_rem k 2 = 0) = even k"
  unfolding js_rem_def by (auto simp: sgn_if even_iff_mod_2_eq_zero)

lemma arr_slice_ok: "props a = [] \<Longrightarrow> arr_slice a = a"
  by (simp add: arr_slice_def)

lemma scan_lines_truthy: "scan_lines ls sq = Some w \<Longrightarrow> w \<noteq> []"
  by (induction ls) (auto simp: line_wins_def split: if_splits prod.splits)

lemma winner_truthy: "truthy (calculateWinner sq) = (calculateWinner sq \<noteq> None)"
  by (cases "calculateWinner sq") (auto simp: calculateWinner_def dest: scan_lines_truthy)

lemma handleClick_in_range:
  assumes "0 \<le> step s" "step s < int (length (history s))"
  shows "handleClick i s =
     (let hist = take (Suc (nat (step s))) (history s);
          sq = arr_slice (squares (history s ! nat (step s)))
      in if calculateWinner sq \<noteq> None \<or> truthy (arr_get sq i) then Inr s
         else Inr \<lparr>history = hist @ [\<lparr>squares = arr_set sq i (if xIsNext s then ''X'' else ''O''),
                                       coords = calculateCoordinate i\<rparr>],
                   step = step s + 1,
                   xIsNext = \<not> xIsNext s\<rparr>)"
proof -
  let ?hist = "take (Suc (nat (step s))) (history s)"
  have k: "js_slice0 (history s) (step s + 1) = ?hist"
    using assms by (simp add: js_slice0_def Let_def min_def nat_add_distrib)
  have l: "int (length ?hist) = step s + 1"
    using assms by simp
  have j: "js_index ?hist (step s) = Some (history s ! nat (step s))"
    using assms by (simp add: js_index_def)
  have "handleClick i s =
     (case js_index ?hist (step s) of
        None \<Rightarrow> Inl TypeError
      | Some current \<Rightarrow>
          let sq = arr_slice (squares current);
              x = xIsNext s
          in if truthy (calculateWinner sq) \<or> truthy (arr_get sq i) then Inr s
             else Inr \<lparr>history = ?hist @ [\<lparr>squares = arr_set sq i (if x then ''X'' else ''O''),
                                           coords = calculateCoordinate i\<rparr>],
                       step = int (length ?hist),
                       xIsNext = \<not> x\<rparr>)"
    unfolding handleClick_def k Let_def ..
  then show ?thesis
    unfolding j l by (simp add: Let_def winner_truthy)
qed

lemma cell_ok_truthy: "cell_ok c \<Longrightarrow> truthy c = (c \<noteq> Some '''')"
  by (auto simp: cell_ok_def)

lemma board_ok_get:
  "board_ok a \<Longrightarrow> 0 \<le> i \<Longrightarrow> i \<le> 8 \<Longrightarrow> cell_ok (arr_get a i)"
  by (auto simp: board_ok_def arr_get_def is_index_def list_all_length)

lemma board_ok_set:
  "board_ok a \<Longrightarrow> 0 \<le> i \<Longrightarrow> i \<le> 8 \<Longrightarrow> v = ''X'' \<or> v = ''O'' \<Longrightarrow> board_ok (arr_set a i v)"
  by (auto simp: board_ok_def arr_set_def is_index_def list_all_length nth_list_update cell_ok_def)

lemma board_ok_empty: "board_ok empty_board"
  by (simp add: board_ok_def empty_board_def cell_ok_def list_all_iff)

lemma state_ok_init: "state_ok initial_state"
  by (simp add: state_ok_def initial_state_def board_ok_empty)

lemma state_ok_jump:
  "state_ok s \<Longrightarrow> 0 \<le> k \<Longrightarrow> k < int (length (history s)) \<Longrightarrow> state_ok (jumpTo k s)"
  by (simp add: state_ok_def jumpTo_def js_rem_2)

lemma state_ok_click:
  assumes ok: "state_ok s" and i: "0 \<le> i" "i \<le> 8" and h: "handleClick i s = Inr s'"
  shows "state_ok s'"
proof -
  let ?n = "nat (step s)"
  let ?cur = "history s ! ?n"
  have r: "0 \<le> step s" "step s < int (length (history s))"
    using ok by (simp_all add: state_ok_def)
  have n: "?n < length (history s)" using r by simp
  have boards: "list_all (\<lambda>e. board_ok (squares e)) (history s)"
    using ok by (simp add: state_ok_def)
  have cur: "board_ok (squares ?cur)"
    using boards n by (simp add: list_all_length)
  then have sl: "arr_slice (squares ?cur) = squares ?cur"
    by (simp add: arr_slice_ok board_ok_def)
  show ?thesis
  proof (cases "s' = s")
    case True
    then show ?thesis using ok by simp
  next
    case False
    let ?e = "\<lparr>squares = arr_set (squares ?cur) i (if xIsNext s then ''X'' else ''O''),
                coords = calculateCoordinate i\<rparr>"
    from h False have s': "s' = \<lparr>history = take (Suc ?n) (history s) @ [?e],
                   step = step s + 1, xIsNext = \<not> xIsNext s\<rparr>"
      unfolding handleClick_in_range [OF r] sl by (auto simp: Let_def split: if_splits)
    have e1: "board_ok (squares ?e)"
      using cur i by (simp add: board_ok_set)
    have e2: "coords_ok ?e"
      using i by (auto simp: coords_ok_def)
    have t1: "take 1 (take (Suc ?n) (history s) @ [?e]) = take 1 (history s)"
      using n by (cases "history s") simp_all
    have t2: "list_all (\<lambda>e. board_ok (squares e)) (take (Suc ?n) (history s) @ [?e])"
      using boards e1 by (auto simp: list_all_iff dest: in_set_takeD)
    have "list_all coords_ok (drop 1 (history s))"
      using ok by (simp add: state_ok_def)
    then have t3: "list_all coords_ok (drop 1 (take (Suc ?n) (history s) @ [?e]))"
      using e2 n by (auto simp: list_all_iff drop_take dest: in_set_takeD)
    show ?thesis
      unfolding state_ok_def s' using ok t1 t2 t3 n r
      by (simp add: state_ok_def del: take_Suc)
  qed
qed

lemma reachable_ok: "reachable s \<Longrightarrow> state_ok s"
  by (induction rule: reachable.induct) (auto intro: state_ok_init state_ok_click state_ok_jump)


lemma board_at_in_range:
  "0 \<le> k \<Longrightarrow> k < int (length (history s)) \<Longrightarrow>
   board_at s k = Some (squares (history s ! nat k))"
  by (simp add: board_at_def js_index_def)

lemma state_ok_board:
  "state_ok s \<Longrightarrow> 0 \<le> k \<Longrightarrow> k < int (length (history s)) \<Longrightarrow>
   board_at s k = Some b \<Longrightarrow> board_ok b"
  by (auto simp: board_at_in_range state_ok_def list_all_length)

lemma apply_moves_reachable:
  "reachable s \<Longrightarrow> list_all (\<lambda>i. 0 \<le> i \<and> i \<le> 8) ms \<Longrightarrow>
   apply_moves ms s = Inr s' \<Longrightarrow> reachable s'"
proof (induction ms arbitrary: s)
  case Nil
  then show ?case by simp
next
  case (Cons i ms)
  then show ?case
    by (auto split: sum.splits intro: reachable.click)
qed

lemma won_state_run: "apply_moves [0, 4, 1, 3, 2] initial_state = Inr won_state"
  by code_simp

lemma reachable_won_state: "reachable won_state"
  by (rule apply_moves_reachable [OF reachable.init _ won_state_run]) simp

lemma won_state_board:
  "board_at won_state (step won_state) =
   Some (mk_board [''X'', ''X'', ''X'', ''O'', ''O'', '''', '''', '''', ''''])"
  by code_simp

section \<open>Illegal clicks\<close>

text \<open>
  C1. In every reachable state, a click on one of the cells 0..8 leaves the whole
  state (history, step and xIsNext) as it was when the current board already has
  a winner or the clicked cell is not Empty.
\<close>

theorem click_illegal_noop:
  assumes "reachable s" "0 \<le> i" "i \<le> 8" "board_at s (step s) = Some b"
    and "calculateWinner b \<noteq> None \<or> arr_get b i \<noteq> Some ''''"
  shows "handleClick i s = Inr s"
proof -
  have ok: "state_ok s" using assms(1) by (rule reachable_ok)
  then have r: "0 \<le> step s" "step s < int (length (history s))"
    by (simp_all add: state_ok_def)
  have b: "b = squares (history s ! nat (step s))"
    using assms(4) r by (simp add: board_at_in_range)
  have bo: "board_ok b" using ok r assms(4) by (rule state_ok_board)
  then have sl: "arr_slice b = b" by (simp add: arr_slice_ok board_ok_def)
  have "truthy (arr_get b i) = (arr_get b i \<noteq> Some '''')"
    using bo assms(2,3) by (simp add: board_ok_get cell_ok_truthy)
  then show ?thesis
    using assms(5) unfolding handleClick_in_range [OF r] b [symmetric] sl
    by (auto simp: Let_def)
qed

text \<open>After X has won, a click on the Empty cell 5 changes nothing.\<close>

theorem click_illegal_noop_witness: "handleClick 5 won_state = Inr won_state"
proof -
  have "calculateWinner (mk_board [''X'', ''X'', ''X'', ''O'', ''O'', '''', '''', '''', '''']) \<noteq> None"
    by code_simp
  then show ?thesis
    using click_illegal_noop [OF reachable_won_state _ _ won_state_board, of 5] by simp
qed

section \<open>Time travel and branch truncation\<close>

text \<open>
  A click that passes the guard, in a state that satisfies the invariant.
\<close>

lemma handleClick_effective:
  assumes ok: "state_ok s" and b: "board_at s (step s) = Some b"
    and w: "calculateWinner b = None" and c: "\<not> truthy (arr_get b i)"
  shows "handleClick i s =
     Inr \<lparr>history = take (Suc (nat (step s))) (history s) @
                      [\<lparr>squares = arr_set b i (if xIsNext s then ''X'' else ''O''),
                        coords = calculateCoordinate i\<rparr>],
          step = step s + 1,
          xIsNext = \<not> xIsNext s\<rparr>"
proof -
  have r: "0 \<le> step s" "step s < int (length (history s))"
    using ok by (simp_all add: state_ok_def)
  have e: "b = squares (history s ! nat (step s))"
    using b r by (simp add: board_at_in_range)
  have "board_ok b" using ok r b by (rule state_ok_board)
  then have sl: "arr_slice b = b" by (simp add: arr_slice_ok board_ok_def)
  show ?thesis
    unfolding handleClick_in_range [OF r] e [symmetric] sl using w c
    by (simp add: Let_def)
qed

text \<open>
  C2. In every reachable state, for every step \<open>k\<close> of the history and every cell \<open>i\<close> of 0..8
  that is Empty on the board of step \<open>k\<close>, that board having no winner: after
  \<^verbatim>\<open>jumpTo(k)\<close> then a click on \<open>i\<close> the history has \<open>k + 2\<close> entries, its first
  \<open>k + 1\<close> entries are those from before the jump, and it ends there with the one new
  entry, so every entry that was beyond index \<open>k\<close> is gone.
\<close>

theorem jump_then_click_truncates:
  assumes "reachable s" "0 \<le> k" "k < int (length (history s))" "0 \<le> i" "i \<le> 8"
    and "board_at s k = Some b" "calculateWinner b = None" "arr_get b i = Some ''''"
  shows "\<exists>s'. handleClick i (jumpTo k s) = Inr s' \<and>
           length (history s') = nat k + 2 \<and>
           take (nat k + 1) (history s') = take (nat k + 1) (history s) \<and>
           history s' = take (nat k + 1) (history s) @
                        [\<lparr>squares = arr_set b i (if even k then ''X'' else ''O''),
                          coords = calculateCoordinate i\<rparr>] \<and>
           step s' = k + 1"
proof -
  have ok: "state_ok (jumpTo k s)"
    using assms(1-3) by (simp add: reachable_ok state_ok_jump)
  have b: "board_at (jumpTo k s) (step (jumpTo k s)) = Some b"
    using assms(6) by (simp add: jumpTo_def board_at_def)
  have c: "\<not> truthy (arr_get b i)" using assms(8) by simp
  have x: "xIsNext (jumpTo k s) = even k" by (simp add: jumpTo_def js_rem_2)
  have h: "history (jumpTo k s) = history s" "step (jumpTo k s) = k"
    by (simp_all add: jumpTo_def)
  show ?thesis
    unfolding handleClick_effective [OF ok b assms(7) c] x h
    using assms(2,3) by simp
qed

lemma won_state_board_1:
  "board_at won_state 1 = Some (mk_board [''X'', '''', '''', '''', '''', '''', '''', '''', ''''])"
  by code_simp

text \<open>
  From the won game, jumping to step 1 and clicking cell 2 leaves three entries.
\<close>

theorem jump_then_click_truncates_witness:
  "handleClick 2 (jumpTo 1 won_state) = Inr branched_state \<and>
   length (history branched_state) = 3 \<and>
   take 2 (history branched_state) = take 2 (history won_state)"
proof -
  have w: "calculateWinner (mk_board [''X'', '''', '''', '''', '''', '''', '''', '''', '''']) = None"
    by code_simp
  have c: "arr_get (mk_board [''X'', '''', '''', '''', '''', '''', '''', '''', '''']) 2 = Some ''''"
    by code_simp
  have l: "(1::int) < int (length (history won_state))" by code_simp
  obtain s' where s': "handleClick 2 (jumpTo 1 won_state) = Inr s'"
      "length (history s') = nat 1 + 2"
      "take (nat 1 + 1) (history s') = take (nat 1 + 1) (history won_state)"
    using jump_then_click_truncates [OF reachable_won_state _ l _ _ won_state_board_1 w c]
    by auto
  have "handleClick 2 (jumpTo 1 won_state) = Inr branched_state" by code_simp
  with s' have "s' = branched_state" by simp
  with s' show ?thesis by (simp add: numeral_2_eq_2 numeral_3_eq_3)
qed

section \<open>Jumps outside the history\<close>

text \<open>
  C3 as stated fails: in the initial state, whose history has one entry,
  \<^verbatim>\<open>jumpTo(7)\<close> stores \<open>step = 7\<close>.
\<close>

theorem jumpTo_out_of_range_counterexample:
  "jumpTo 7 initial_state = \<lparr>history = history initial_state, step = 7, xIsNext = False\<rparr> \<and>
   length (history initial_state) = 1"
  by (simp add: jumpTo_def initial_state_def js_rem_def)

text \<open>
  C3, amended. For every \<^verbatim>\<open>jumpTo(step)\<close> with the step outside \<open>[0, history.length)\<close>,
  \<^verbatim>\<open>jumpTo\<close> makes no range check: it does not clamp, and it does set the current step
  to the out-of-range value, with \<^verbatim>\<open>xIsNext\<close> set from its parity and the history left
  as it is. The step of the state it stores lies outside that state's history.
\<close>

theorem jumpTo_unchecked:
  assumes "k < 0 \<or> int (length (history s)) \<le> k"
  shows "history (jumpTo k s) = history s \<and>
         step (jumpTo k s) = k \<and>
         xIsNext (jumpTo k s) = even k \<and>
         (step (jumpTo k s) < 0 \<or> int (length (history (jumpTo k s))) \<le> step (jumpTo k s))"
proof -
  have h: "history (jumpTo k s) = history s" and st: "step (jumpTo k s) = k"
    by (simp_all add: jumpTo_def)
  have x: "xIsNext (jumpTo k s) = even k"
    by (simp add: jumpTo_def js_rem_2)
  from assms have "step (jumpTo k s) < 0 \<or> int (length (history (jumpTo k s))) \<le> step (jumpTo k s)"
    unfolding h st .
  with h st x show ?thesis by (simp only: simp_thms)
qed

text \<open>From the won game, whose history has six entries, to the steps -1 and 6.\<close>

theorem jumpTo_unchecked_witness:
  "step (jumpTo (- 1) won_state) = - 1 \<and> step (jumpTo (- 1) won_state) < 0 \<and>
   step (jumpTo 6 won_state) = 6 \<and>
   int (length (history (jumpTo 6 won_state))) \<le> step (jumpTo 6 won_state) \<and>
   history (jumpTo 6 won_state) = history won_state"
proof -
  have p: "(- 1::int) < 0 \<or> int (length (history won_state)) \<le> - 1" by simp
  have q: "(6::int) < 0 \<or> int (length (history won_state)) \<le> 6" by code_simp
  note low = jumpTo_unchecked [OF p]
  note high = jumpTo_unchecked [OF q]
  have a: "step (jumpTo (- 1) won_state) = - 1"
    using low by (rule conjunct1 [OF conjunct2])
  have b: "step (jumpTo 6 won_state) = 6"
    using high by (rule conjunct1 [OF conjunct2])
  have c: "history (jumpTo 6 won_state) = history won_state"
    using high by (rule conjunct1)
  have d: "int (length (history (jumpTo 6 won_state))) \<le> step (jumpTo 6 won_state)"
    unfolding b c by code_simp
  from a b c d show ?thesis by simp
qed

section \<open>Whose turn it is\<close>

lemma first_move_run: "handleClick 0 initial_state = Inr first_move_state"
  by code_simp

lemma arr_get_set_same:
  assumes "board_ok b" "0 \<le> i" "i \<le> 8"
  shows "arr_get (arr_set b i v) i = Some v"
proof -
  have "nat i < 9" using assms(2,3) by simp
  then show ?thesis
    using assms by (simp add: arr_get_def arr_set_def is_index_def board_ok_def)
qed

text \<open>
  C5. In every reachable state \<^verbatim>\<open>xIsNext\<close> holds exactly when the step is even; and
  the mark that a click which changes the state writes into its cell is X exactly
  when the step it was made at is even.
\<close>

theorem parity_invariant:
  assumes "reachable s"
  shows "xIsNext s = even (step s) \<and>
         (\<forall>i s'. 0 \<le> i \<and> i \<le> 8 \<and> handleClick i s = Inr s' \<and> s' \<noteq> s \<longrightarrow>
            (\<exists>b. board_at s' (step s') = Some b \<and>
                 arr_get b i = Some (if even (step s) then ''X'' else ''O'')))"
proof -
  have ok: "state_ok s" using assms by (rule reachable_ok)
  then have r: "0 \<le> step s" "step s < int (length (history s))" and x: "xIsNext s = even (step s)"
    by (simp_all add: state_ok_def)
  let ?b = "squares (history s ! nat (step s))"
  have b: "board_at s (step s) = Some ?b" using r by (rule board_at_in_range)
  have bo: "board_ok ?b" using ok r b by (rule state_ok_board)
  then have sl: "arr_slice ?b = ?b" by (simp add: arr_slice_ok board_ok_def)
  have "\<exists>b. board_at s' (step s') = Some b \<and>
             arr_get b i = Some (if even (step s) then ''X'' else ''O'')"
    if i: "0 \<le> i" "i \<le> 8" and h: "handleClick i s = Inr s'" and ne: "s' \<noteq> s" for i s'
  proof -
    let ?e = "\<lparr>squares = arr_set ?b i (if xIsNext s then ''X'' else ''O''),
                coords = calculateCoordinate i\<rparr>"
    from h ne have s': "s' = \<lparr>history = take (Suc (nat (step s))) (history s) @ [?e],
                   step = step s + 1, xIsNext = \<not> xIsNext s\<rparr>"
      unfolding handleClick_in_range [OF r] sl by (auto simp: Let_def split: if_splits)
    have "board_at s' (step s') = Some (squares ?e)"
      unfolding s' using r by (simp add: board_at_def js_index_def nth_append nat_add_distrib)
    moreover have "arr_get (squares ?e) i = Some (if even (step s) then ''X'' else ''O'')"
      using bo i x by (simp add: arr_get_set_same)
    ultimately show ?thesis by blast
  qed
  with x show ?thesis by blast
qed

theorem parity_invariant_witness:
  "xIsNext initial_state = even (step initial_state) \<and>
   (\<exists>b. board_at first_move_state (step first_move_state) = Some b \<and> arr_get b 0 = Some ''X'')"
proof -
  have ne: "first_move_state \<noteq> initial_state"
    by (simp add: first_move_state_def initial_state_def)
  have ev: "even (step initial_state)" by (simp add: initial_state_def)
  from parity_invariant [OF reachable.init] first_move_run ne ev show ?thesis
    by fastforce
qed

section \<open>What a jump changes\<close>

text \<open>
  C7. In every reachable state, a jump to a step \<open>k\<close> of the history changes the
  step and \<^verbatim>\<open>xIsNext\<close> only; the history stays as it is. After \<^verbatim>\<open>jumpTo(0)\<close> the
  current board is the all-Empty board and X is next, with the whole history kept.
\<close>

theorem jumpTo_frame:
  assumes "reachable s" "0 \<le> k" "k < int (length (history s))"
  shows "jumpTo k s = s\<lparr>step := k, xIsNext := even k\<rparr> \<and>
         history (jumpTo k s) = history s \<and>
         board_at (jumpTo 0 s) (step (jumpTo 0 s)) = Some empty_board \<and>
         xIsNext (jumpTo 0 s) \<and>
         history (jumpTo 0 s) = history s"
proof -
  have ok: "state_ok s" using assms(1) by (rule reachable_ok)
  then have t: "take 1 (history s) = [\<lparr>squares = empty_board, coords = None\<rparr>]"
    by (simp add: state_ok_def)
  then have "board_at s 0 = Some empty_board"
    by (cases "history s") (simp_all add: board_at_def js_index_def)
  then have "board_at (jumpTo 0 s) (step (jumpTo 0 s)) = Some empty_board"
    by (simp add: jumpTo_def board_at_def)
  then show ?thesis
    by (simp add: jumpTo_def js_rem_2)
qed

theorem jumpTo_frame_witness:
  "jumpTo 2 won_state = won_state\<lparr>step := 2, xIsNext := True\<rparr> \<and>
   history (jumpTo 2 won_state) = history won_state \<and>
   board_at (jumpTo 0 won_state) (step (jumpTo 0 won_state)) = Some empty_board \<and>
   xIsNext (jumpTo 0 won_state) \<and>
   history (jumpTo 0 won_state) = history won_state"
proof -
  have l: "(2::int) < int (length (history won_state))" by code_simp
  from jumpTo_frame [OF reachable_won_state _ l] show ?thesis by simp
qed

section \<open>The winner\<close>

text \<open>
  On a board of nine cells the test of the loop body is the completeness of the line.
\<close>

lemma line_wins_complete:
  assumes "board_ok b" "0 \<le> p" "p \<le> 8"
  shows "line_wins b (p, q, r) = line_complete b (p, q, r)"
proof -
  have "cell_ok (arr_get b p)" using assms by (rule board_ok_get)
  then show ?thesis
    by (auto simp: line_wins_def line_complete_def cell_ok_def)
qed

lemma scan_lines_find:
  assumes "board_ok b" "\<forall>l\<in>set ls. 0 \<le> fst l \<and> fst l \<le> 8"
  shows "scan_lines ls b =
         (case find (line_complete b) ls of None \<Rightarrow> None | Some l \<Rightarrow> arr_get b (fst l))"
  using assms(2)
proof (induction ls)
  case Nil
  then show ?case by simp
next
  case (Cons l ls)
  obtain p q r where l: "l = (p, q, r)" by (cases l)
  with Cons.prems have "line_wins b l = line_complete b l"
    using assms(1) by (simp add: line_wins_complete)
  with Cons show ?case by simp
qed

lemma lines_first_in_range: "\<forall>l\<in>set spec_lines. 0 \<le> fst l \<and> fst l \<le> 8"
  by (simp add: spec_lines_def)

text \<open>
  C4. On every nine-cell board \<^verbatim>\<open>calculateWinner\<close> scans the eight lines in the order
  rows (0,1,2) (3,4,5) (6,7,8), columns (0,3,6) (1,4,7) (2,5,8), diagonals (0,4,8)
  (2,4,6), and returns the mark on the first line whose three cells are equal and
  not Empty, and nothing when no line is complete. The board with X on the top row
  gives X, the full draw board gives nothing, the board with X on the main diagonal
  gives X.
\<close>

theorem winner_scan:
  assumes "board_ok b"
  shows "lines = spec_lines \<and> calculateWinner b = spec_winner b \<and>
         calculateWinner (mk_board [''X'', ''X'', ''X'', '''', '''', '''', '''', '''', '''']) = Some ''X'' \<and>
         calculateWinner (mk_board [''X'', ''O'', ''X'', ''O'', ''X'', ''O'', ''O'', ''X'', ''O'']) = None \<and>
         calculateWinner (mk_board [''X'', '''', '''', '''', ''X'', '''', '''', '''', ''X'']) = Some ''X''"
proof -
  have l: "lines = spec_lines" by (simp add: lines_def spec_lines_def)
  have "calculateWinner b = spec_winner b"
    unfolding calculateWinner_def spec_winner_def l
    using assms lines_first_in_range by (rule scan_lines_find)
  moreover have "calculateWinner (mk_board [''X'', ''X'', ''X'', '''', '''', '''', '''', '''', '''']) = Some ''X''"
    by code_simp
  moreover have "calculateWinner (mk_board [''X'', ''O'', ''X'', ''O'', ''X'', ''O'', ''O'', ''X'', ''O'']) = None"
    by code_simp
  moreover have "calculateWinner (mk_board [''X'', '''', '''', '''', ''X'', '''', '''', '''', ''X'']) = Some ''X''"
    by code_simp
  ultimately show ?thesis using l by simp
qed

text \<open>
  With two complete lines the first one in the scan order decides.
\<close>

theorem winner_scan_witness:
  "calculateWinner two_lines_board = spec_winner two_lines_board \<and>
   spec_winner two_lines_board = Some ''O''"
proof -
  have "board_ok two_lines_board" by code_simp
  from winner_scan [OF this] have "calculateWinner two_lines_board = spec_winner two_lines_board"
    by simp
  moreover have "spec_winner two_lines_board = Some ''O''" by code_simp
  ultimately show ?thesis by simp
qed

section \<open>Coordinates\<close>

lemma calculateCoordinate_in_range:
  assumes "0 \<le> i" "i \<le> 8"
  shows "calculateCoordinate i = Some (spec_coordinate i)"
proof -
  from assms have "i = 0 \<or> i = 1 \<or> i = 2 \<or> i = 3 \<or> i = 4 \<or> i = 5 \<or> i = 6 \<or> i = 7 \<or> i = 8"
    by arith
  then show ?thesis
    by (auto simp: calculateCoordinate_def coordinateMap_def spec_coordinate_def)
qed

text \<open>
  C8. For every cell index \<open>i\<close> of 0..8 the coordinate looked up in the table is
  \<open>(i mod 3 + 1, i div 3 + 1)\<close>; index 0 gives (1,1), index 4 gives (2,2), index 8 gives
  (3,3) and index 2 gives (3,1).
\<close>

theorem coordinate_formula:
  assumes "0 \<le> i" "i \<le> 8"
  shows "calculateCoordinate i = Some (spec_coordinate i) \<and>
         calculateCoordinate 0 = Some [1, 1] \<and> calculateCoordinate 4 = Some [2, 2] \<and>
         calculateCoordinate 8 = Some [3, 3] \<and> calculateCoordinate 2 = Some [3, 1]"
proof -
  have "calculateCoordinate i = Some (spec_coordinate i)"
    using assms by (rule calculateCoordinate_in_range)
  then show ?thesis
    by (simp add: calculateCoordinate_def coordinateMap_def)
qed

theorem coordinate_formula_witness:
  "calculateCoordinate 5 = Some [3, 2] \<and> spec_coordinate 5 = [3, 2]"
proof -
  have "calculateCoordinate 5 = Some (spec_coordinate 5)"
    using coordinate_formula [of 5] by simp
  moreover have "spec_coordinate 5 = [3, 2]" by (simp add: spec_coordinate_def)
  ultimately show ?thesis by simp
qed

section \<open>Sequences of valid moves\<close>

text \<open>
  A valid move is carried out and leaves the step at the last entry.
\<close>

lemma valid_move_click:
  assumes ok: "state_ok s" and v: "valid_move i s"
  shows "\<exists>s'. handleClick i s = Inr s' \<and> state_ok s' \<and> int (length (history s')) = step s' + 1"
proof -
  from v obtain b where b: "board_at s (step s) = Some b" and w: "calculateWinner b = None"
    and c: "arr_get b i = Some ''''" and i: "0 \<le> i" "i \<le> 8"
    by (auto simp: valid_move_def split: option.splits)
  have r: "0 \<le> step s" "step s < int (length (history s))"
    using ok by (simp_all add: state_ok_def)
  from c have t: "\<not> truthy (arr_get b i)" by simp
  note h = handleClick_effective [OF ok b w t]
  then obtain s' where s': "handleClick i s = Inr s'"
    and l: "length (history s') = Suc (Suc (nat (step s)))" and st: "step s' = step s + 1"
    using r by simp
  have "state_ok s'" using ok i s' by (rule state_ok_click)
  moreover have "int (length (history s')) = step s' + 1"
    using l st r by simp
  ultimately show ?thesis using s' by blast
qed

lemma valid_moves_run:
  "state_ok s \<Longrightarrow> int (length (history s)) = step s + 1 \<Longrightarrow> valid_moves ms s \<Longrightarrow>
   \<exists>s'. apply_moves (take n ms) s = Inr s' \<and> int (length (history s')) = step s' + 1"
proof (induction ms arbitrary: s n)
  case Nil
  then show ?case by simp
next
  case (Cons i ms)
  show ?case
  proof (cases n)
    case 0
    with Cons.prems show ?thesis by simp
  next
    case (Suc n')
    from Cons.prems have v: "valid_move i s" by simp
    from valid_move_click [OF Cons.prems(1) v] obtain s1 where
      s1: "handleClick i s = Inr s1" "state_ok s1" "int (length (history s1)) = step s1 + 1"
      by blast
    with Cons.prems have "valid_moves ms s1" by simp
    from Cons.IH [OF s1(2,3) this, of n'] s1(1) Suc show ?thesis by simp
  qed
qed

text \<open>
  C6. After every call of a sequence of valid clicks from the initial state the
  history has \<open>step + 1\<close> entries; and in every reachable state the board of entry 0
  is the all-Empty board.
\<close>

theorem valid_moves_length:
  "(valid_moves ms initial_state \<longrightarrow>
      (\<forall>n\<le>length ms. \<exists>s'. apply_moves (take n ms) initial_state = Inr s' \<and>
                             int (length (history s')) = step s' + 1)) \<and>
   (reachable s \<longrightarrow> board_at s 0 = Some empty_board)"
proof -
  have i: "int (length (history initial_state)) = step initial_state + 1"
    by (simp add: initial_state_def)
  have a: "\<exists>s'. apply_moves (take n ms) initial_state = Inr s' \<and>
                int (length (history s')) = step s' + 1"
    if "valid_moves ms initial_state" for n
    using state_ok_init i that by (rule valid_moves_run)
  have b: "board_at s 0 = Some empty_board" if "reachable s"
  proof -
    have "take 1 (history s) = [\<lparr>squares = empty_board, coords = None\<rparr>]"
      using reachable_ok [OF that] by (simp add: state_ok_def)
    then show ?thesis
      by (cases "history s") (simp_all add: board_at_def js_index_def)
  qed
  from a b show ?thesis by blast
qed

theorem valid_moves_length_witness:
  "int (length (history won_state)) = step won_state + 1 \<and>
   board_at won_state 0 = Some empty_board"
proof -
  let ?ms = "[0, 4, 1, 3, 2] :: int list"
  have v: "valid_moves ?ms initial_state" by code_simp
  have "\<forall>n\<le>length ?ms. \<exists>s'. apply_moves (take n ?ms) initial_state = Inr s' \<and>
                             int (length (history s')) = step s' + 1"
    using valid_moves_length [of ?ms won_state] v by blast
  then have "\<exists>s'. apply_moves (take (length ?ms) ?ms) initial_state = Inr s' \<and>
                  int (length (history s')) = step s' + 1"
    by blast
  then obtain s' where s': "apply_moves ?ms initial_state = Inr s'"
      "int (length (history s')) = step s' + 1"
    unfolding take_all [OF order_refl] by blast
  from s'(1) have "s' = won_state"
    unfolding won_state_run by (simp only: sum.inject)
  with s'(2) have "int (length (history won_state)) = step won_state + 1"
    by (simp only:)
  moreover have "board_at won_state 0 = Some empty_board"
    using valid_moves_length [of "[]" won_state] reachable_won_state by blast
  ultimately show ?thesis by (simp only: simp_thms)
qed

section \<open>History descriptions\<close>

lemma coords_ok_pair: "coords_ok e \<Longrightarrow> \<exists>col row. coords e = Some [col, row]"
  by (auto simp: coords_ok_def calculateCoordinate_in_range spec_coordinate_def)

lemma description_label:
  "m \<noteq> 0 \<Longrightarrow> coords e = Some [col, row] \<Longrightarrow> description e m = Inr (spec_label m col row)"
  by (simp add: description_def spec_label_def)

text \<open>
  The labels of entries that all carry a coordinate, numbered from \<open>k > 0\<close>.
\<close>

lemma map_descriptions_ok:
  assumes "list_all coords_ok es" "k \<noteq> 0"
  shows "\<exists>ds. map_descriptions k es = Inr ds \<and> length ds = length es \<and>
           (\<forall>j<length es. \<exists>col row. coords (es ! j) = Some [col, row] \<and>
                                    ds ! j = spec_label (k + j) col row)"
  using assms
proof (induction es arbitrary: k)
  case Nil
  then show ?case by simp
next
  case (Cons e es)
  from Cons.prems have "coords_ok e" by simp
  then obtain col row where c: "coords e = Some [col, row]"
    using coords_ok_pair by blast
  with Cons.prems have d: "description e k = Inr (spec_label k col row)"
    by (simp add: description_label)
  from Cons.prems have "list_all coords_ok es" "Suc k \<noteq> 0" by simp_all
  from Cons.IH [OF this] obtain ds where ds: "map_descriptions (Suc k) es = Inr ds"
      "length ds = length es"
      "\<forall>j<length es. \<exists>col row. coords (es ! j) = Some [col, row] \<and>
                                ds ! j = spec_label (Suc k + j) col row"
    by blast
  have "map_descriptions k (e # es) = Inr (spec_label k col row # ds)"
    using d ds(1) by simp
  moreover have "\<exists>col' row'. coords ((e # es) ! j) = Some [col', row'] \<and>
          (spec_label k col row # ds) ! j = spec_label (k + j) col' row'"
    if "j < length (e # es)" for j
  proof (cases j)
    case 0
    with c show ?thesis by simp
  next
    case (Suc j')
    with that ds(3) show ?thesis by simp
  qed
  ultimately show ?case using ds(2) by simp
qed

text \<open>
  C9. In every reachable state \<^verbatim>\<open>render\<close> produces one description per history entry:
  for entry 0 it is \<^verbatim>\<open>Go to start\<close>, for every entry \<open>m > 0\<close> it is
  \<^verbatim>\<open>Go to move #m at (col, row)\<close> with the coordinate \<open>[col, row]\<close> stored in that entry.
\<close>

theorem history_descriptions:
  assumes "reachable s"
  shows "\<exists>r. render s = Inr r \<and> length (moves r) = length (history s) \<and>
           (\<forall>m<length (history s).
              if m = 0 then moves r ! m = ''Go to start''
              else (\<exists>col row. coords (history s ! m) = Some [col, row] \<and>
                              moves r ! m = spec_label m col row))"
proof -
  have ok: "state_ok s" using assms by (rule reachable_ok)
  then have r: "0 \<le> step s" "step s < int (length (history s))"
    by (simp_all add: state_ok_def)
  from ok obtain e es where h: "history s = e # es" and t: "list_all coords_ok es"
    by (cases "history s") (auto simp: state_ok_def)
  from map_descriptions_ok [OF t, of 1] obtain ds where ds: "map_descriptions 1 es = Inr ds"
      "length ds = length es"
      "\<forall>j<length es. \<exists>col row. coords (es ! j) = Some [col, row] \<and>
                                ds ! j = spec_label (1 + j) col row"
    by auto
  have m: "map_descriptions 0 (history s) = Inr (''Go to start'' # ds)"
    using ds(1) by (simp add: h description_def)
  have j: "js_index (history s) (step s) = Some (history s ! nat (step s))"
    using r by (simp add: js_index_def)
  obtain r' where r': "render s = Inr r'" "moves r' = ''Go to start'' # ds"
    by (simp add: render_def j m Let_def)
  have len: "length (moves r') = length (history s)"
    using r'(2) ds(2) h by simp
  have "if m = 0 then moves r' ! m = ''Go to start''
        else (\<exists>col row. coords (history s ! m) = Some [col, row] \<and>
                        moves r' ! m = spec_label m col row)"
    if "m < length (history s)" for m
  proof (cases m)
    case 0
    then show ?thesis by (simp add: r'(2))
  next
    case (Suc m')
    with that ds(3) show ?thesis by (simp add: r'(2) h)
  qed
  then have "\<forall>m<length (history s).
              if m = 0 then moves r' ! m = ''Go to start''
              else (\<exists>col row. coords (history s ! m) = Some [col, row] \<and>
                              moves r' ! m = spec_label m col row)"
    by blast
  with r'(1) len show ?thesis by blast
qed

theorem history_descriptions_witness:
  "\<exists>r. render won_state = Inr r \<and> moves r ! 0 = ''Go to start'' \<and>
       moves r ! 3 = ''Go to move #3 at (2, 1)''"
proof -
  from history_descriptions [OF reachable_won_state] obtain r where
    r: "render won_state = Inr r"
      "\<forall>m<length (history won_state).
              if m = 0 then moves r ! m = ''Go to start''
              else (\<exists>col row. coords (history won_state ! m) = Some [col, row] \<and>
                              moves r ! m = spec_label m col row)"
    by blast
  have l: "0 < length (history won_state)" "3 < length (history won_state)" by code_simp+
  have c: "coords (history won_state ! 3) = Some [2, 1]" by code_simp
  have s: "spec_label 3 2 1 = ''Go to move #3 at (2, 1)''" by code_simp
  from r(2) l(1) have "moves r ! 0 = ''Go to start''" by fastforce
  moreover from r(2) l(2) have "\<exists>col row. coords (history won_state ! 3) = Some [col, row] \<and>
                              moves r ! 3 = spec_label 3 col row" by fastforce
  then have "moves r ! 3 = ''Go to move #3 at (2, 1)''"
    unfolding c using s by auto
  ultimately show ?thesis using r(1) by blast
qed

section \<open>Clicks outside the board\<close>

lemma calculateCoordinate_outside:
  "i < 0 \<or> 8 < i \<Longrightarrow> calculateCoordinate i = None"
  by (auto simp: calculateCoordinate_def coordinateMap_def)

lemma board_ok_get_outside:
  "board_ok b \<Longrightarrow> i < 0 \<or> 8 < i \<Longrightarrow> arr_get b i = None"
  by (auto simp: board_ok_def arr_get_def is_index_def)

text \<open>
  C10 as stated fails once an out-of-range click has been made: the first click with
  the index 10 writes its mark into slot 10 of an extended board; the current board
  still has no winner, and the second click with the index 10 finds that mark, so the
  guard returns and the state stays as it is.
\<close>

theorem click_out_of_range_counterexample:
  "handleClick 10 initial_state = Inr overflow_state \<and>
   board_at overflow_state (step overflow_state) = Some overflow_board \<and>
   calculateWinner overflow_board = None \<and>
   handleClick 10 overflow_state = Inr overflow_state"
  by code_simp

text \<open>
  C10, amended. In every state reached from the initial state by clicks on the cells
  0..8 and jumps to steps of the history, when the current board has no winner, a
  click with an index outside 0..8 is not a no-op: the cell read is absent, so the
  guard lets the click through; \<^verbatim>\<open>calculateCoordinate\<close> has no entry for the index; one
  history entry with undefined \<^verbatim>\<open>coords\<close> is appended and the step advances.
\<close>

theorem click_out_of_range:
  assumes "reachable s" "i < 0 \<or> 8 < i" "board_at s (step s) = Some b" "calculateWinner b = None"
  shows "arr_get b i = None \<and> calculateCoordinate i = None \<and>
         handleClick i s =
           Inr \<lparr>history = take (Suc (nat (step s))) (history s) @
                            [\<lparr>squares = arr_set b i (if xIsNext s then ''X'' else ''O''),
                              coords = None\<rparr>],
                step = step s + 1,
                xIsNext = \<not> xIsNext s\<rparr> \<and>
         handleClick i s \<noteq> Inr s"
proof -
  have ok: "state_ok s" using assms(1) by (rule reachable_ok)
  then have r: "0 \<le> step s" "step s < int (length (history s))"
    by (simp_all add: state_ok_def)
  have "board_ok b" using ok r assms(3) by (rule state_ok_board)
  then have g: "arr_get b i = None" using assms(2) by (rule board_ok_get_outside)
  then have t: "\<not> truthy (arr_get b i)" by simp
  have c: "calculateCoordinate i = None" using assms(2) by (rule calculateCoordinate_outside)
  note h = handleClick_effective [OF ok assms(3,4) t]
  have "handleClick i s \<noteq> Inr s"
  proof
    assume "handleClick i s = Inr s"
    then have "step s = step s + 1" unfolding h by (metis GameState.select_convs(2) sum.inject(2))
    then show False by simp
  qed
  with g c h show ?thesis by simp
qed

lemma initial_board: "board_at initial_state (step initial_state) = Some empty_board"
  by code_simp

lemma empty_board_no_winner: "calculateWinner empty_board = None"
  by code_simp

theorem click_out_of_range_witness:
  "handleClick 10 initial_state = Inr overflow_state \<and>
   handleClick (- 1) initial_state = Inr negative_state \<and>
   handleClick 10 initial_state \<noteq> Inr initial_state"
proof -
  have p: "(10::int) < 0 \<or> (8::int) < 10" and q: "(- 1::int) < 0 \<or> (8::int) < - 1"
    by simp_all
  note over = click_out_of_range [OF reachable.init p initial_board empty_board_no_winner]
  note neg = click_out_of_range [OF reachable.init q initial_board empty_board_no_winner]
  have a: "Inr \<lparr>history = take (Suc (nat (step initial_state))) (history initial_state) @
                            [\<lparr>squares = arr_set empty_board 10 (if xIsNext initial_state then ''X'' else ''O''),
                              coords = None\<rparr>],
                step = step initial_state + 1,
                xIsNext = \<not> xIsNext initial_state\<rparr> = (Inr overflow_state :: error + GameState)"
    by code_simp
  have b: "Inr \<lparr>history = take (Suc (nat (step initial_state))) (history initial_state) @
                            [\<lparr>squares = arr_set empty_board (- 1) (if xIsNext initial_state then ''X'' else ''O''),
                              coords = None\<rparr>],
                step = step initial_state + 1,
                xIsNext = \<not> xIsNext initial_state\<rparr> = (Inr negative_state :: error + GameState)"
    by code_simp
  from over have "handleClick 10 initial_state = Inr overflow_state"
    unfolding a by (rule conjunct1 [OF conjunct2 [OF conjunct2]])
  moreover from neg have "handleClick (- 1) initial_state = Inr negative_state"
    unfolding b by (rule conjunct1 [OF conjunct2 [OF conjunct2]])
  moreover from over have "handleClick 10 initial_state \<noteq> Inr initial_state"
    by (rule conjunct2 [OF conjunct2 [OF conjunct2]])
  ultimately show ?thesis by (simp only: simp_thms)
qed

text \<open>
  The entry without \<^verbatim>\<open>coords\<close> then breaks the history list: \<^verbatim>\<open>render\<close> throws on
  \<^verbatim>\<open>it.coords!.join\<close>.
\<close>

lemma render_overflow_state: "render overflow_state = Inl TypeError"
  by code_simp

end
